theory Spec2Isabelle
  imports Complex_Main "HOL-Library.RBT" "HOL-Library.AList"
begin

section \<open>The data the extension reads and builds\<close>

text \<open>
  \<^verbatim>\<open>ext_boost.cpp\<close> holds one function, \<^verbatim>\<open>restructure_pulsemap\<close>. It receives a Python
  object, takes the \<^verbatim>\<open>I3RecoPulseSeriesMap\<close> out of it and walks that map once, building
  two Python lists and two Python dictionaries.

  The function is embedded twice. The first embedding computes the values of the four
  results; the second, further down, runs the same statements on a heap of Python objects,
  so that what the call writes and what it leaves alone can be stated.

  Of an \<^verbatim>\<open>I3RecoPulse\<close> the function reads two accessors only, \<^verbatim>\<open>GetCharge()\<close> and
  \<^verbatim>\<open>GetTime()\<close>. The numbers are handed to Python as they are and no arithmetic is done on
  them, so they are modelled as \<^typ>\<open>real\<close>.
\<close>

record I3RecoPulse =
  GetTime :: real
  GetCharge :: real

text \<open>
  \<^verbatim>\<open>I3RecoPulseSeriesMap\<close> is an \<^verbatim>\<open>I3Map\<close>, that is a \<^verbatim>\<open>std::map\<close>, from a key to a
  \<^verbatim>\<open>std::vector\<close> of pulses: keys are unique and the range-based \<^verbatim>\<open>for\<close> visits them in
  ascending order. A red-black tree over a linearly ordered key type is that structure;
  \<^const>\<open>RBT.entries\<close> is the sequence of pairs the iteration visits. The key type (\<^verbatim>\<open>OMKey\<close>) is
  declared outside this file and stays a parameter.
\<close>

type_synonym 'k I3RecoPulseSeriesMap = "('k, I3RecoPulse list) rbt"

text \<open>
  The argument is a \<^verbatim>\<open>boost::python::object\<close>: any Python value. \<open>PyWrapped\<close> is a Python
  object that holds a C++ pulse map (the type \<open>'c\<close>); the other constructors are the values
  that hold none: numbers, strings, Python lists and dictionaries, and instances with
  attributes.
\<close>

datatype 'c pyobject =
    PyNone
  | PyFloat real
  | PyStr string
  | PyList "'c pyobject list"
  | PyDict "('c pyobject \<times> 'c pyobject) list"
  | PyInstance "(string \<times> 'c pyobject) list"
  | PyWrapped 'c

text \<open>
  What a call can raise. \<open>InputTypeError\<close> is the Python \<^verbatim>\<open>TypeError\<close> that
  \<^verbatim>\<open>boost::python::extract\<close> raises when the conversion fails, \<open>OutOfRange\<close> is the
  \<^verbatim>\<open>std::out_of_range\<close> of \<^verbatim>\<open>vector::at\<close>. \<open>MissingFieldError\<close> is the name the
  specification gives to a failed field access; no statement of the source raises it.
\<close>

datatype error = InputTypeError | MissingFieldError | OutOfRange

text \<open>
  Line 24: \<^verbatim>\<open>extract<I3RecoPulseSeriesMap&>(pulse_map_obj)\<close> asks for a reference to the C++
  object inside the Python object. It succeeds on a wrapped instance and on nothing else.
\<close>

fun py_extract :: "'c pyobject \<Rightarrow> error + 'c" where
  "py_extract (PyWrapped m) = Inr m"
| "py_extract _ = Inl InputTypeError"

text \<open>\<^verbatim>\<open>std::vector::at\<close>: a checked read.\<close>

definition vector_at :: "'a list \<Rightarrow> nat \<Rightarrow> error + 'a" where
  "vector_at v i = (if i < length v then Inr (v ! i) else Inl OutOfRange)"

text \<open>
  The Python containers the function builds. A list of floats is a \<^typ>\<open>real list\<close>. A
  dictionary is an association list in insertion order; \<^verbatim>\<open>d[k] = v\<close> replaces the value
  of a key already present, where it stands, and adds a new key at the end. Two keys are
  the same key of a dictionary when they are equal as keys of the map.
\<close>

type_synonym py_list = "real list"
type_synonym 'k py_dict = "('k \<times> py_list) list"

definition list_append :: "py_list \<Rightarrow> real \<Rightarrow> py_list" where
  "list_append l x = l @ [x]"

definition list_extend :: "py_list \<Rightarrow> py_list \<Rightarrow> py_list" where
  "list_extend l l' = l @ l'"

definition dict_setitem :: "'k py_dict \<Rightarrow> 'k \<Rightarrow> py_list \<Rightarrow> 'k py_dict" where
  "dict_setitem d k v = AList.update k v d"

definition dict_getitem :: "'k py_dict \<Rightarrow> 'k \<Rightarrow> py_list option" where
  "dict_getitem d k = map_of d k"

definition dict_keys :: "'k py_dict \<Rightarrow> 'k list" where
  "dict_keys d = map fst d"

definition dict_values :: "'k py_dict \<Rightarrow> py_list list" where
  "dict_values d = map snd d"

section \<open>restructure_pulsemap\<close>

text \<open>
  Lines 34 to 37, the loop over one pulse series with its counter \<open>i\<close>. Each round reads
  \<^verbatim>\<open>at(i)\<close> twice, first for the charge, then for the time. The counter is a C \<^verbatim>\<open>int\<close>
  compared with a \<^verbatim>\<open>size_t\<close>; it is the index itself for every series of at most
  \<open>2^31 - 1\<close> pulses, the series this development is about.
\<close>

function pulse_loop ::
  "I3RecoPulse list \<Rightarrow> nat \<Rightarrow> py_list \<times> py_list \<Rightarrow> error + (py_list \<times> py_list)" where
  "pulse_loop pulses i (dom_charges, dom_times) =
     (if i < length pulses then
        (case vector_at pulses i of
           Inl e \<Rightarrow> Inl e
         | Inr p \<Rightarrow>
             (case vector_at pulses i of
                Inl e \<Rightarrow> Inl e
              | Inr q \<Rightarrow>
                  pulse_loop pulses (i + 1)
                    (list_append dom_charges (GetCharge p), list_append dom_times (GetTime q))))
      else Inr (dom_charges, dom_times))"
  by pat_completeness auto
termination
  by (relation "measure (\<lambda>(pulses, i, acc). length pulses - i)") auto

text \<open>
  The four values under construction, in the order in which line 49 puts them in the tuple:
  \<^verbatim>\<open>charges\<close>, \<^verbatim>\<open>times\<close>, \<^verbatim>\<open>dom_times_dict\<close>, \<^verbatim>\<open>dom_charges_dict\<close>. The variable
  \<^verbatim>\<open>times\<close> is written \<open>times'\<close>, as \<open>times\<close> is the name of multiplication in HOL.
\<close>

type_synonym 'k py_tuple = "py_list \<times> py_list \<times> 'k py_dict \<times> 'k py_dict"

text \<open>Lines 31 to 42, the loop over the pairs of the map.\<close>

fun dom_loop :: "('k \<times> I3RecoPulse list) list \<Rightarrow> 'k py_tuple \<Rightarrow> error + 'k py_tuple" where
  "dom_loop [] (charges, times', dom_times_dict, dom_charges_dict) =
     Inr (charges, times', dom_times_dict, dom_charges_dict)"
| "dom_loop (dom_pulses # rest) (charges, times', dom_times_dict, dom_charges_dict) =
     (case pulse_loop (snd dom_pulses) 0 ([], []) of
        Inl e \<Rightarrow> Inl e
      | Inr (dom_charges, dom_times) \<Rightarrow>
          dom_loop rest
            (list_extend charges dom_charges,
             list_extend times' dom_times,
             dict_setitem dom_times_dict (fst dom_pulses) dom_times,
             dict_setitem dom_charges_dict (fst dom_pulses) dom_charges))"

definition restructure_pulsemap ::
  "('k::linorder) I3RecoPulseSeriesMap pyobject \<Rightarrow> error + 'k py_tuple" where
  "restructure_pulsemap pulse_map_obj =
     (case py_extract pulse_map_obj of
        Inl e \<Rightarrow> Inl e
      | Inr pulse_map \<Rightarrow> dom_loop (RBT.entries pulse_map) ([], [], [], []))"

section \<open>The same statements on a heap of Python objects\<close>

text \<open>
  A Python name holds a reference. The heap is the list of all objects, a reference is an
  index into it, and a new object is put at the end. An object of the caller's is kept as
  the value it is (\<open>HValue\<close>); the containers the function builds are lists of floats,
  dictionaries from a key to a reference, and at the end one tuple of references.
\<close>

type_synonym addr = nat

datatype ('k, 'c) py_heap_object =
    HValue "'c pyobject"
  | HList py_list
  | HDict "('k \<times> addr) list"
  | HTuple "addr list"

type_synonym ('k, 'c) py_heap = "('k, 'c) py_heap_object list"

text \<open>
  On the heap a statement ends in one of two ways besides the normal one: the source raises
  (\<open>Raised\<close>), or a reference does not lead to an object of the kind the statement needs
  (\<open>BadHandle\<close>). The typed handles of \<^verbatim>\<open>boost::python\<close> (\<^verbatim>\<open>list\<close>, \<^verbatim>\<open>dict\<close>) exclude the
  second; it is in the model so that every heap operation says what it does on every heap.
\<close>

datatype heap_error = Raised error | BadHandle

definition heap_get :: "('k, 'c) py_heap \<Rightarrow> addr \<Rightarrow> ('k, 'c) py_heap_object option" where
  "heap_get h a = (if a < length h then Some (h ! a) else None)"

definition new_object ::
  "('k, 'c) py_heap_object \<Rightarrow> ('k, 'c) py_heap \<Rightarrow> addr \<times> ('k, 'c) py_heap" where
  "new_object obj h = (length h, h @ [obj])"

definition heap_extract :: "addr \<Rightarrow> ('k, 'c) py_heap \<Rightarrow> heap_error + 'c" where
  "heap_extract a h =
     (case heap_get h a of
        None \<Rightarrow> Inl BadHandle
      | Some (HValue obj) \<Rightarrow> (case py_extract obj of Inl e \<Rightarrow> Inl (Raised e) | Inr m \<Rightarrow> Inr m)
      | Some _ \<Rightarrow> Inl (Raised InputTypeError))"

definition heap_list_append ::
  "addr \<Rightarrow> real \<Rightarrow> ('k, 'c) py_heap \<Rightarrow> heap_error + ('k, 'c) py_heap" where
  "heap_list_append l x h =
     (case heap_get h l of
        Some (HList xs) \<Rightarrow> Inr (h[l := HList (list_append xs x)])
      | _ \<Rightarrow> Inl BadHandle)"

definition heap_list_extend ::
  "addr \<Rightarrow> addr \<Rightarrow> ('k, 'c) py_heap \<Rightarrow> heap_error + ('k, 'c) py_heap" where
  "heap_list_extend l l' h =
     (case heap_get h l of
        Some (HList xs) \<Rightarrow>
          (case heap_get h l' of
             Some (HList ys) \<Rightarrow> Inr (h[l := HList (list_extend xs ys)])
           | _ \<Rightarrow> Inl BadHandle)
      | _ \<Rightarrow> Inl BadHandle)"

definition heap_dict_setitem ::
  "addr \<Rightarrow> 'k \<Rightarrow> addr \<Rightarrow> ('k, 'c) py_heap \<Rightarrow> heap_error + ('k, 'c) py_heap" where
  "heap_dict_setitem d k v h =
     (case heap_get h d of
        Some (HDict kvs) \<Rightarrow> Inr (h[d := HDict (AList.update k v kvs)])
      | _ \<Rightarrow> Inl BadHandle)"

text \<open>
  The loops return the heap they reached and \<open>None\<close> when they ran to their end, or the
  error that stopped them. Of the C++ map the source calls the iteration, \<^verbatim>\<open>size\<close>, \<^verbatim>\<open>at\<close>
  and the two accessors, which read; its pairs are taken from the argument once, at the start.
\<close>

function pulse_loop_heap ::
  "I3RecoPulse list \<Rightarrow> nat \<Rightarrow> addr \<Rightarrow> addr \<Rightarrow> ('k, 'c) py_heap \<Rightarrow>
     heap_error option \<times> ('k, 'c) py_heap" where
  "pulse_loop_heap pulses i dom_charges dom_times h =
     (if i < length pulses then
        (case vector_at pulses i of
           Inl e \<Rightarrow> (Some (Raised e), h)
         | Inr p \<Rightarrow>
             (case heap_list_append dom_charges (GetCharge p) h of
                Inl e \<Rightarrow> (Some e, h)
              | Inr h1 \<Rightarrow>
                  (case vector_at pulses i of
                     Inl e \<Rightarrow> (Some (Raised e), h1)
                   | Inr q \<Rightarrow>
                       (case heap_list_append dom_times (GetTime q) h1 of
                          Inl e \<Rightarrow> (Some e, h1)
                        | Inr h2 \<Rightarrow> pulse_loop_heap pulses (i + 1) dom_charges dom_times h2))))
      else (None, h))"
  by pat_completeness auto
termination
  by (relation "measure (\<lambda>(pulses, i, dom_charges, dom_times, h). length pulses - i)") auto

fun dom_loop_heap ::
  "('k \<times> I3RecoPulse list) list \<Rightarrow> addr \<times> addr \<times> addr \<times> addr \<Rightarrow> ('k, 'c) py_heap \<Rightarrow>
     heap_error option \<times> ('k, 'c) py_heap" where
  "dom_loop_heap [] (charges, times', dom_times_dict, dom_charges_dict) h = (None, h)"
| "dom_loop_heap (dom_pulses # rest) (charges, times', dom_times_dict, dom_charges_dict) h =
     (case new_object (HList []) h of (dom_charges, h1) \<Rightarrow>
      case new_object (HList []) h1 of (dom_times, h2) \<Rightarrow>
      case pulse_loop_heap (snd dom_pulses) 0 dom_charges dom_times h2 of
        (Some e, h3) \<Rightarrow> (Some e, h3)
      | (None, h3) \<Rightarrow>
      case heap_dict_setitem dom_times_dict (fst dom_pulses) dom_times h3 of
        Inl e \<Rightarrow> (Some e, h3)
      | Inr h4 \<Rightarrow>
      case heap_dict_setitem dom_charges_dict (fst dom_pulses) dom_charges h4 of
        Inl e \<Rightarrow> (Some e, h4)
      | Inr h5 \<Rightarrow>
      case heap_list_extend charges dom_charges h5 of
        Inl e \<Rightarrow> (Some e, h5)
      | Inr h6 \<Rightarrow>
      case heap_list_extend times' dom_times h6 of
        Inl e \<Rightarrow> (Some e, h6)
      | Inr h7 \<Rightarrow> dom_loop_heap rest (charges, times', dom_times_dict, dom_charges_dict) h7)"

text \<open>
  The whole call: the argument is a reference, the result a reference to the new tuple, or
  the error, and with either the heap the call leaves behind.
\<close>

definition restructure_pulsemap_heap ::
  "addr \<Rightarrow> ('k::linorder, 'k I3RecoPulseSeriesMap) py_heap \<Rightarrow>
     (heap_error + addr) \<times> ('k, 'k I3RecoPulseSeriesMap) py_heap" where
  "restructure_pulsemap_heap pulse_map_obj h =
     (case heap_extract pulse_map_obj h of
        Inl e \<Rightarrow> (Inl e, h)
      | Inr pulse_map \<Rightarrow>
      case new_object (HList []) h of (charges, h1) \<Rightarrow>
      case new_object (HList []) h1 of (times', h2) \<Rightarrow>
      case new_object (HDict []) h2 of (dom_times_dict, h3) \<Rightarrow>
      case new_object (HDict []) h3 of (dom_charges_dict, h4) \<Rightarrow>
      case dom_loop_heap (RBT.entries pulse_map)
             (charges, times', dom_times_dict, dom_charges_dict) h4 of
        (Some e, h5) \<Rightarrow> (Inl e, h5)
      | (None, h5) \<Rightarrow>
      case new_object (HTuple [charges, times', dom_times_dict, dom_charges_dict]) h5 of
        (result, h6) \<Rightarrow> (Inr result, h6))"

section \<open>Notions the properties are stated with\<close>

text \<open>
  Reading the per-key sequences of a dictionary back, one key after the other, and joining
  them: \<open>None\<close> when a key is missing.
\<close>

fun concat_per_key :: "'k py_dict \<Rightarrow> 'k list \<Rightarrow> py_list option" where
  "concat_per_key d [] = Some []"
| "concat_per_key d (k # ks) =
     (case dict_getitem d k of
        None \<Rightarrow> None
      | Some v \<Rightarrow> (case concat_per_key d ks of None \<Rightarrow> None | Some r \<Rightarrow> Some (v @ r)))"

text \<open>
  The values the loops are shown to compute: one field of every pulse of the map, in the
  order of the iteration, as one sequence and key by key.
\<close>

definition flat :: "(I3RecoPulse \<Rightarrow> real) \<Rightarrow> ('k::linorder) I3RecoPulseSeriesMap \<Rightarrow> py_list" where
  "flat f m = concat (map (\<lambda>(k, ps). map f ps) (RBT.entries m))"

definition per_key :: "(I3RecoPulse \<Rightarrow> real) \<Rightarrow> ('k::linorder) I3RecoPulseSeriesMap \<Rightarrow> 'k py_dict" where
  "per_key f m = map (\<lambda>(k, ps). (k, map f ps)) (RBT.entries m)"

text \<open>
  A Python object has a numeric field of a given name when it is an instance with an
  attribute of that name whose value is a number.
\<close>

fun is_numeric :: "'c pyobject \<Rightarrow> bool" where
  "is_numeric (PyFloat x) = True"
| "is_numeric _ = False"

fun has_numeric_field :: "string \<Rightarrow> 'c pyobject \<Rightarrow> bool" where
  "has_numeric_field name (PyInstance attrs) =
     (case map_of attrs name of Some v \<Rightarrow> is_numeric v | None \<Rightarrow> False)"
| "has_numeric_field name _ = False"

text \<open>Reading the containers of a heap back as values.\<close>

definition read_list :: "('k, 'c) py_heap \<Rightarrow> addr \<Rightarrow> py_list option" where
  "read_list h a = (case heap_get h a of Some (HList xs) \<Rightarrow> Some xs | _ \<Rightarrow> None)"

fun read_items :: "('k, 'c) py_heap \<Rightarrow> ('k \<times> addr) list \<Rightarrow> 'k py_dict option" where
  "read_items h [] = Some []"
| "read_items h (kv # kvs) =
     (case read_list h (snd kv) of
        None \<Rightarrow> None
      | Some xs \<Rightarrow>
          (case read_items h kvs of None \<Rightarrow> None | Some d \<Rightarrow> Some ((fst kv, xs) # d)))"

definition read_dict :: "('k, 'c) py_heap \<Rightarrow> addr \<Rightarrow> 'k py_dict option" where
  "read_dict h a = (case heap_get h a of Some (HDict kvs) \<Rightarrow> read_items h kvs | _ \<Rightarrow> None)"

definition read_tuple :: "('k, 'c) py_heap \<Rightarrow> addr \<Rightarrow> 'k py_tuple option" where
  "read_tuple h a =
     (case heap_get h a of
        Some (HTuple [c, t, dt, dc]) \<Rightarrow>
          (case (read_list h c, read_list h t, read_dict h dt, read_dict h dc) of
             (Some charges, Some times', Some dom_times_dict, Some dom_charges_dict) \<Rightarrow>
               Some (charges, times', dom_times_dict, dom_charges_dict)
           | _ \<Rightarrow> None)
      | _ \<Rightarrow> None)"

text \<open>
  The objects a result is made of: the tuple, its components, and the lists the
  dictionaries among the components refer to.
\<close>

definition dict_refs :: "('k, 'c) py_heap \<Rightarrow> addr \<Rightarrow> addr list" where
  "dict_refs h a = (case heap_get h a of Some (HDict kvs) \<Rightarrow> map snd kvs | _ \<Rightarrow> [])"

definition output_objects :: "('k, 'c) py_heap \<Rightarrow> addr \<Rightarrow> addr list" where
  "output_objects h a =
     (case heap_get h a of
        Some (HTuple comps) \<Rightarrow> a # comps @ concat (map (dict_refs h) comps)
      | _ \<Rightarrow> [a])"

text \<open>
  The heap a successful call is shown to leave: the old heap, then the two flat lists and
  the two dictionaries, then for every key its list of charges and its list of times, then
  the tuple.
\<close>

fun new_lists :: "('k \<times> I3RecoPulse list) list \<Rightarrow> ('k, 'c) py_heap" where
  "new_lists [] = []"
| "new_lists (e # es) = HList (map GetCharge (snd e)) # HList (map GetTime (snd e)) # new_lists es"

fun refs :: "addr \<Rightarrow> ('k \<times> 'v) list \<Rightarrow> ('k \<times> addr) list" where
  "refs a [] = []"
| "refs a (e # es) = (fst e, a) # refs (a + 2) es"

definition heap_after ::
  "('k::linorder, 'k I3RecoPulseSeriesMap) py_heap \<Rightarrow> 'k I3RecoPulseSeriesMap \<Rightarrow>
     ('k, 'k I3RecoPulseSeriesMap) py_heap" where
  "heap_after h m =
     h @ [HList (flat GetCharge m), HList (flat GetTime m),
          HDict (refs (length h + 5) (RBT.entries m)), HDict (refs (length h + 4) (RBT.entries m))]
       @ new_lists (RBT.entries m)
       @ [HTuple [length h, length h + 1, length h + 2, length h + 3]]"

section \<open>What the loops compute\<close>

lemma pulse_loop_from:
  "pulse_loop pulses i (cs, ts) =
     Inr (cs @ map GetCharge (drop i pulses), ts @ map GetTime (drop i pulses))"
proof (induction pulses i "(cs, ts)" arbitrary: cs ts rule: pulse_loop.induct)
  case (1 pulses i dom_charges dom_times)
  show ?case
  proof (cases "i < length pulses")
    case True
    have "drop i pulses = pulses ! i # drop (Suc i) pulses"
      using True by (simp add: Cons_nth_drop_Suc)
    with True "1.hyps" [of "pulses ! i" "pulses ! i"] show ?thesis
      by (simp add: vector_at_def list_append_def)
  next
    case False
    then show ?thesis by simp
  qed
qed

lemma pulse_loop_all:
  "pulse_loop pulses 0 ([], []) = Inr (map GetCharge pulses, map GetTime pulses)"
  by (simp add: pulse_loop_from del: pulse_loop.simps)

lemma update_fresh: "k \<notin> fst ` set d \<Longrightarrow> AList.update k v d = d @ [(k, v)]"
  by (induction d) auto

lemma dom_loop_fold:
  "dom_loop es (c, t, dt, dc) =
     Inr (c @ concat (map (\<lambda>(k, ps). map GetCharge ps) es),
          t @ concat (map (\<lambda>(k, ps). map GetTime ps) es),
          fold (\<lambda>(k, ps) d. dict_setitem d k (map GetTime ps)) es dt,
          fold (\<lambda>(k, ps) d. dict_setitem d k (map GetCharge ps)) es dc)"
  by (induction es arbitrary: c t dt dc)
     (simp_all add: pulse_loop_all list_extend_def split_beta del: pulse_loop.simps)

text \<open>
  A key that is new to the dictionary goes to its end, so over pairwise different keys the
  dictionary grows by one item a round, in the order of the rounds.
\<close>

lemma fold_setitem_distinct:
  "distinct (map fst es) \<Longrightarrow> fst ` set es \<inter> fst ` set d = {} \<Longrightarrow>
   fold (\<lambda>(k, ps) d. dict_setitem d k (f ps)) es d = d @ map (\<lambda>(k, ps). (k, f ps)) es"
proof (induction es arbitrary: d)
  case Nil
  then show ?case by simp
next
  case (Cons e es)
  obtain k ps where e: "e = (k, ps)" by (cases e)
  from Cons.prems have fresh: "k \<notin> fst ` set d" and d: "distinct (map fst es)"
    and k: "k \<notin> fst ` set es" and disj: "fst ` set es \<inter> fst ` set d = {}"
    by (auto simp: e)
  have "fst ` set es \<inter> fst ` set (d @ [(k, f ps)]) = {}"
    using k disj by auto
  from Cons.IH [OF d this] fresh show ?case
    by (simp add: e dict_setitem_def update_fresh)
qed

lemma restructure_pulsemap_wrapped:
  "restructure_pulsemap (PyWrapped m) =
     Inr (flat GetCharge m, flat GetTime m, per_key GetTime m, per_key GetCharge m)"
  by (simp add: restructure_pulsemap_def dom_loop_fold fold_setitem_distinct
      RBT.distinct_entries flat_def per_key_def)

lemma restructure_pulsemap_not_wrapped:
  "(\<forall>m. pulse_map_obj \<noteq> PyWrapped m) \<Longrightarrow> restructure_pulsemap pulse_map_obj = Inl InputTypeError"
  by (cases pulse_map_obj) (simp_all add: restructure_pulsemap_def)

subsection \<open>The dictionaries and the flat sequences\<close>

lemma getitem_per_key: "dict_getitem (per_key f m) k = map_option (map f) (RBT.lookup m k)"
proof -
  have "map_of (map (\<lambda>(k, ps). (k, map f ps)) es) k = map_option (map f) (map_of es k)"
    for es :: "('a \<times> I3RecoPulse list) list"
    by (induction es) auto
  then show ?thesis
    by (simp add: dict_getitem_def per_key_def)
qed

lemma keys_per_key: "dict_keys (per_key f m) = RBT.keys m"
  by (simp add: dict_keys_def per_key_def RBT.keys_def_alt split_beta)

lemma values_per_key: "dict_values (per_key f m) = map (\<lambda>(k, ps). map f ps) (RBT.entries m)"
  by (simp add: dict_values_def per_key_def split_beta)

lemma concat_per_key_sub:
  "set es \<subseteq> set (RBT.entries m) \<Longrightarrow>
   concat_per_key (per_key f m) (map fst es) = Some (concat (map (\<lambda>(k, ps). map f ps) es))"
proof (induction es)
  case Nil
  then show ?case by simp
next
  case (Cons e es)
  obtain k ps where e: "e = (k, ps)" by (cases e)
  with Cons.prems have "RBT.lookup m k = Some ps"
    by (simp add: RBT.lookup_in_tree)
  with Cons show ?case
    by (simp add: e getitem_per_key)
qed

lemma concat_per_key_all: "concat_per_key (per_key f m) (RBT.keys m) = Some (flat f m)"
  using concat_per_key_sub [of "RBT.entries m" m f] by (simp add: RBT.keys_def_alt flat_def)

lemma length_flat: "length (flat f m) = sum_list (map length (dict_values (per_key f m)))"
  by (simp add: flat_def values_per_key length_concat comp_def)

lemma length_flat_eq: "length (flat f m) = length (flat g m)"
  by (simp add: flat_def length_concat comp_def split_beta)

subsection \<open>Small maps\<close>

lemma entries_empty: "RBT.entries (RBT.empty :: ('k::linorder, 'v) rbt) = []"
  by (simp add: RBT.entries.rep_eq RBT.empty.rep_eq)

lemma entries_single: "RBT.entries (RBT.insert A v RBT.empty) = [(A, v)]"
  by (simp add: RBT.entries.rep_eq RBT.insert.rep_eq RBT.empty.rep_eq
      rbt_insert_def rbt_insert_with_key_def)

lemma entries_two:
  "A < B \<Longrightarrow> RBT.entries (RBT.insert B w (RBT.insert A v RBT.empty)) = [(A, v), (B, w)]"
  by (auto simp add: RBT.entries.rep_eq RBT.insert.rep_eq RBT.empty.rep_eq
      rbt_insert_def rbt_insert_with_key_def)

text \<open>Taking a key out of the map takes its pair out of the iteration and moves no other.\<close>

lemma entries_delete:
  "RBT.entries (RBT.delete k m) = filter (\<lambda>e. fst e \<noteq> k) (RBT.entries m)"
proof (rule map_sorted_distinct_set_unique [where f = fst])
  show set_eq: "set (RBT.entries (RBT.delete k m)) = set (filter (\<lambda>e. fst e \<noteq> k) (RBT.entries m))"
    by (auto simp: RBT.lookup_in_tree [symmetric] restrict_map_def split: if_splits)
  have "inj_on fst (set (RBT.entries m))"
    using RBT.distinct_entries [of m] by (simp add: distinct_map)
  then show "inj_on fst (set (RBT.entries (RBT.delete k m)) \<union>
      set (filter (\<lambda>e. fst e \<noteq> k) (RBT.entries m)))"
    unfolding set_eq by (rule inj_on_subset) auto
  show "sorted (map fst (RBT.entries (RBT.delete k m)))" by (rule RBT.sorted_entries)
  show "distinct (map fst (RBT.entries (RBT.delete k m)))" by (rule RBT.distinct_entries)
  show "sorted (map fst (filter (\<lambda>e. fst e \<noteq> k) (RBT.entries m)))"
    using RBT.sorted_entries [of m] by (simp add: sorted_wrt_map sorted_wrt_filter)
  show "distinct (map fst (filter (\<lambda>e. fst e \<noteq> k) (RBT.entries m)))"
    using RBT.distinct_entries [of m] by (simp add: distinct_map_filter)
qed

lemma flat_delete_empty:
  assumes "RBT.lookup m k = Some []"
  shows "flat f (RBT.delete k m) = flat f m"
proof -
  have "concat (map (\<lambda>(k, ps). map f ps) (filter (\<lambda>e. fst e \<noteq> k) es)) =
        concat (map (\<lambda>(k, ps). map f ps) es)"
    if "\<forall>v. (k, v) \<in> set es \<longrightarrow> v = []" for es :: "('a \<times> I3RecoPulse list) list"
    using that by (induction es) auto
  moreover have "\<forall>v. (k, v) \<in> set (RBT.entries m) \<longrightarrow> v = []"
    using assms by (simp add: RBT.lookup_in_tree [symmetric])
  ultimately show ?thesis
    by (simp add: flat_def entries_delete)
qed

section \<open>What the call does to the heap\<close>

text \<open>
  Started on two different lists, the inner loop runs to its end and has appended to them
  the charges and the times of the pulses from index \<open>i\<close> on; it writes nowhere else.
\<close>

lemma pulse_loop_heap_from:
  assumes "dc < length h" "dt < length h" "dc \<noteq> dt" "h ! dc = HList cs" "h ! dt = HList ts"
  shows "pulse_loop_heap pulses i dc dt h =
     (None, h[dc := HList (cs @ map GetCharge (drop i pulses)),
              dt := HList (ts @ map GetTime (drop i pulses))])"
  using assms
proof (induction "length pulses - i" arbitrary: i h cs ts)
  case 0
  then have "h[dc := HList cs, dt := HList ts] = h"
    by (metis list_update_id)
  with 0 show ?case by simp
next
  case (Suc n)
  then have i: "i < length pulses" by simp
  define h1 where "h1 = h[dc := HList (cs @ [GetCharge (pulses ! i)])]"
  define h2 where "h2 = h1[dt := HList (ts @ [GetTime (pulses ! i)])]"
  have n: "n = length pulses - (i + 1)" using Suc.hyps(2) by simp
  have step: "pulse_loop_heap pulses i dc dt h = pulse_loop_heap pulses (i + 1) dc dt h2"
    using i Suc.prems
    by (subst pulse_loop_heap.simps)
       (simp add: vector_at_def heap_list_append_def heap_get_def list_append_def h1_def h2_def)
  have "pulse_loop_heap pulses (i + 1) dc dt h2 =
     (None, h2[dc := HList ((cs @ [GetCharge (pulses ! i)]) @ map GetCharge (drop (i + 1) pulses)),
               dt := HList ((ts @ [GetTime (pulses ! i)]) @ map GetTime (drop (i + 1) pulses))])"
    using Suc.prems by (intro Suc.hyps(1) [OF n]) (simp_all add: h1_def h2_def)
  moreover have "drop i pulses = pulses ! i # drop (i + 1) pulses"
    using i by (simp add: Cons_nth_drop_Suc)
  ultimately show ?case
    using Suc.prems(3) by (simp add: step h1_def h2_def list_update_swap [of dc dt] del: pulse_loop_heap.simps)
qed

lemma length_new_lists: "length (new_lists es) = 2 * length es"
  by (induction es) auto

text \<open>
  One round of the outer loop: two new lists at the end of the heap, filled, referred to by
  the dictionaries under the key of the round, and copied onto the flat lists.
\<close>

lemma dom_loop_heap_step:
  assumes lt: "c < length h" "t < length h" "dtd < length h" "dcd < length h"
    and ne: "distinct [c, t, dtd, dcd]"
    and at: "h ! c = HList C" "h ! t = HList T" "h ! dtd = HDict It" "h ! dcd = HDict Ic"
    and fresh: "k \<notin> fst ` set It" "k \<notin> fst ` set Ic"
  shows "dom_loop_heap ((k, ps) # es) (c, t, dtd, dcd) h =
         dom_loop_heap es (c, t, dtd, dcd)
           (h[c := HList (C @ map GetCharge ps), t := HList (T @ map GetTime ps),
              dtd := HDict (It @ [(k, length h + 1)]), dcd := HDict (Ic @ [(k, length h)])]
            @ [HList (map GetCharge ps), HList (map GetTime ps)])"
proof -
  let ?n = "length h"
  let ?h2 = "(h @ [HList []]) @ [HList []]"
  have loop: "pulse_loop_heap ps 0 ?n (?n + 1) ?h2 =
      (None, h @ [HList (map GetCharge ps), HList (map GetTime ps)])"
    by (subst pulse_loop_heap_from [where cs = "[]" and ts = "[]"])
       (simp_all add: nth_append list_update_append del: pulse_loop_heap.simps)
  let ?h3 = "h @ [HList (map GetCharge ps), HList (map GetTime ps)]"
  let ?h4 = "?h3[dtd := HDict (It @ [(k, ?n + 1)])]"
  let ?h5 = "?h4[dcd := HDict (Ic @ [(k, ?n)])]"
  let ?h6 = "?h5[c := HList (C @ map GetCharge ps)]"
  let ?h7 = "?h6[t := HList (T @ map GetTime ps)]"
  have s4: "heap_dict_setitem dtd k (?n + 1) ?h3 = Inr ?h4"
    using lt at fresh by (simp add: heap_dict_setitem_def heap_get_def nth_append update_fresh)
  have s5: "heap_dict_setitem dcd k ?n ?h4 = Inr ?h5"
    using lt at fresh ne by (simp add: heap_dict_setitem_def heap_get_def nth_append update_fresh)
  have s6: "heap_list_extend c ?n ?h5 = Inr ?h6"
    using lt at ne by (simp add: heap_list_extend_def heap_get_def nth_append list_extend_def)
  have s7: "heap_list_extend t (?n + 1) ?h6 = Inr ?h7"
    using lt at ne by (simp add: heap_list_extend_def heap_get_def nth_append list_extend_def)
  have "?h7 = h[c := HList (C @ map GetCharge ps), t := HList (T @ map GetTime ps),
              dtd := HDict (It @ [(k, ?n + 1)]), dcd := HDict (Ic @ [(k, ?n)])]
            @ [HList (map GetCharge ps), HList (map GetTime ps)]"
    using lt ne by (intro nth_equalityI) (auto simp: nth_list_update nth_append)
  then show ?thesis
    using loop s4 s5 s6 s7 by (simp add: new_object_def del: pulse_loop_heap.simps)
qed

lemma dom_loop_heap_all:
  assumes "c < length h" "t < length h" "dtd < length h" "dcd < length h"
    and "distinct [c, t, dtd, dcd]"
    and "h ! c = HList C" "h ! t = HList T" "h ! dtd = HDict It" "h ! dcd = HDict Ic"
    and "distinct (map fst es)"
    and "fst ` set es \<inter> fst ` set It = {}" "fst ` set es \<inter> fst ` set Ic = {}"
  shows "dom_loop_heap es (c, t, dtd, dcd) h =
     (None, h[c := HList (C @ concat (map (\<lambda>(k, ps). map GetCharge ps) es)),
              t := HList (T @ concat (map (\<lambda>(k, ps). map GetTime ps) es)),
              dtd := HDict (It @ refs (length h + 1) es),
              dcd := HDict (Ic @ refs (length h) es)] @ new_lists es)"
  using assms
proof (induction es arbitrary: h C T It Ic)
  case Nil
  then have "h[c := HList C, t := HList T, dtd := HDict It, dcd := HDict Ic] = h"
    by (intro nth_equalityI) (auto simp: nth_list_update)
  then show ?case by simp
next
  case (Cons e es)
  obtain k ps where e: "e = (k, ps)" by (cases e)
  let ?h' = "h[c := HList (C @ map GetCharge ps), t := HList (T @ map GetTime ps),
              dtd := HDict (It @ [(k, length h + 1)]), dcd := HDict (Ic @ [(k, length h)])]
            @ [HList (map GetCharge ps), HList (map GetTime ps)]"
  have fresh: "k \<notin> fst ` set It" "k \<notin> fst ` set Ic"
    using Cons.prems(11,12) by (auto simp: e)
  have step: "dom_loop_heap (e # es) (c, t, dtd, dcd) h = dom_loop_heap es (c, t, dtd, dcd) ?h'"
    unfolding e using Cons.prems(1-9) fresh by (rule dom_loop_heap_step)
  have k: "k \<notin> fst ` set es" and d: "distinct (map fst es)"
    using Cons.prems(10) by (auto simp: e)
  have "dom_loop_heap es (c, t, dtd, dcd) ?h' =
     (None, ?h'[c := HList ((C @ map GetCharge ps) @ concat (map (\<lambda>(k, ps). map GetCharge ps) es)),
              t := HList ((T @ map GetTime ps) @ concat (map (\<lambda>(k, ps). map GetTime ps) es)),
              dtd := HDict ((It @ [(k, length h + 1)]) @ refs (length ?h' + 1) es),
              dcd := HDict ((Ic @ [(k, length h)]) @ refs (length ?h') es)] @ new_lists es)"
    using Cons.prems(1-5,11,12) k d
    by (intro Cons.IH) (auto simp: nth_append nth_list_update e)
  also have "\<dots> = (None, h[c := HList (C @ concat (map (\<lambda>(k, ps). map GetCharge ps) (e # es))),
              t := HList (T @ concat (map (\<lambda>(k, ps). map GetTime ps) (e # es))),
              dtd := HDict (It @ refs (length h + 1) (e # es)),
              dcd := HDict (Ic @ refs (length h) (e # es))] @ new_lists (e # es))"
    using Cons.prems(1-5)
    by (simp add: e, intro nth_equalityI) (auto simp: nth_list_update nth_append add.commute)
  finally show ?case using step by simp
qed

text \<open>The call, in closed form: it fails at its first statement or not at all.\<close>

lemma restructure_pulsemap_heap_fails:
  "heap_extract pulse_map_obj h = Inl e \<Longrightarrow> restructure_pulsemap_heap pulse_map_obj h = (Inl e, h)"
  by (simp add: restructure_pulsemap_heap_def)

lemma restructure_pulsemap_heap_succeeds:
  assumes "heap_extract pulse_map_obj h = Inr m"
  shows "restructure_pulsemap_heap pulse_map_obj h =
           (Inr (length h + 4 + 2 * length (RBT.entries m)), heap_after h m)"
proof -
  let ?n = "length h"
  let ?h4 = "h @ [HList [], HList [], HDict [], HDict []]"
  have "dom_loop_heap (RBT.entries m) (?n, ?n + 1, ?n + 2, ?n + 3) ?h4 =
     (None, ?h4[?n := HList ([] @ concat (map (\<lambda>(k, ps). map GetCharge ps) (RBT.entries m))),
              ?n + 1 := HList ([] @ concat (map (\<lambda>(k, ps). map GetTime ps) (RBT.entries m))),
              ?n + 2 := HDict ([] @ refs (length ?h4 + 1) (RBT.entries m)),
              ?n + 3 := HDict ([] @ refs (length ?h4) (RBT.entries m))] @ new_lists (RBT.entries m))"
    by (rule dom_loop_heap_all) (simp_all add: nth_append RBT.distinct_entries)
  then have "dom_loop_heap (RBT.entries m) (?n, ?n + 1, ?n + 2, ?n + 3) ?h4 =
     (None, h @ [HList (flat GetCharge m), HList (flat GetTime m),
          HDict (refs (?n + 5) (RBT.entries m)), HDict (refs (?n + 4) (RBT.entries m))]
       @ new_lists (RBT.entries m))"
    by (simp add: list_update_append flat_def eval_nat_numeral)
  with assms show ?thesis
    by (simp add: restructure_pulsemap_heap_def new_object_def heap_after_def length_new_lists
        eval_nat_numeral)
qed

text \<open>
  The references held by the dictionaries are every second address from their first one,
  so those of the two dictionaries interleave and none is met twice.
\<close>

lemma snd_refs: "map snd (refs a es) = map (\<lambda>j. a + 2 * j) [0..<length es]"
proof (induction es arbitrary: a)
  case Nil
  then show ?case by simp
next
  case (Cons e es)
  have "[0..<Suc (length es)] = 0 # map Suc [0..<length es]"
    by (simp add: upt_conv_Cons map_Suc_upt del: upt_Suc)
  with Cons [of "a + 2"] show ?case
    by (simp add: comp_def del: upt_Suc)
qed

lemma output_objects_after:
  "output_objects (heap_after h m) (length h + 4 + 2 * length (RBT.entries m)) =
     (length h + 4 + 2 * length (RBT.entries m)) #
     [length h, length h + 1, length h + 2, length h + 3] @
     map snd (refs (length h + 5) (RBT.entries m)) @ map snd (refs (length h + 4) (RBT.entries m))"
  by (simp add: output_objects_def heap_after_def heap_get_def dict_refs_def nth_append length_new_lists)

lemma refs_iff: "x \<in> snd ` set (refs a es) \<longleftrightarrow> (\<exists>j < length es. x = a + 2 * j)"
proof -
  have "snd ` set (refs a es) = (\<lambda>j. a + 2 * j) ` set [0..<length es]"
    using snd_refs [of a es] by (metis set_map)
  then show ?thesis by auto
qed

lemma distinct_refs: "distinct (map snd (refs a es))"
  by (simp add: snd_refs distinct_map inj_on_def)

lemma refs_bounds:
  assumes "x \<in> snd ` set (refs a es)"
  shows "a \<le> x \<and> x + 2 \<le> a + 2 * length es"
proof -
  from assms obtain j where "j < length es" and "x = a + 2 * j"
    unfolding refs_iff by blast
  then show ?thesis by simp
qed

lemma refs_disjoint: "snd ` set (refs (a + 5) es) \<inter> snd ` set (refs (a + 4) es') = {}"
proof -
  have False if "x \<in> snd ` set (refs (a + 5) es)" and "x \<in> snd ` set (refs (a + 4) es')" for x
  proof -
    from that obtain i j where "x = a + 5 + 2 * i" and "x = a + 4 + 2 * j"
      unfolding refs_iff by blast
    then show False by presburger
  qed
  then show ?thesis by blast
qed

lemma output_objects_fresh:
  assumes "a \<in> set (output_objects (heap_after h m) (length h + 4 + 2 * length (RBT.entries m)))"
  shows "length h \<le> a \<and> a < length (heap_after h m)"
proof -
  have len: "length (heap_after h m) = length h + 4 + 2 * length (RBT.entries m) + 1"
    by (simp add: heap_after_def length_new_lists)
  from assms consider "a = length h + 4 + 2 * length (RBT.entries m)"
    | "a \<in> {length h, length h + 1, length h + 2, length h + 3}"
    | "a \<in> snd ` set (refs (length h + 5) (RBT.entries m))"
    | "a \<in> snd ` set (refs (length h + 4) (RBT.entries m))"
    unfolding output_objects_after by simp blast
  then show ?thesis
  proof cases
    case 1
    then show ?thesis by (simp add: len)
  next
    case 2
    then show ?thesis by (auto simp: len)
  next
    case 3
    from refs_bounds [OF this] show ?thesis by (simp add: len)
  next
    case 4
    from refs_bounds [OF this] show ?thesis by (simp add: len)
  qed
qed

lemma output_objects_distinct:
  "distinct (output_objects (heap_after h m) (length h + 4 + 2 * length (RBT.entries m)))"
proof -
  let ?n = "length h" and ?es = "RBT.entries m"
  have out: "x \<notin> snd ` set (refs (?n + 5) ?es) \<and> x \<notin> snd ` set (refs (?n + 4) ?es)"
    if "x < ?n + 4 \<or> ?n + 4 + 2 * length ?es \<le> x" for x
  proof -
    have "\<not> (?n + 5 \<le> x \<and> x + 2 \<le> ?n + 5 + 2 * length ?es)"
      and "\<not> (?n + 4 \<le> x \<and> x + 2 \<le> ?n + 4 + 2 * length ?es)"
      using that by arith+
    then show ?thesis
      using refs_bounds [of x "?n + 5" ?es] refs_bounds [of x "?n + 4" ?es] by blast
  qed
  have "?n + 4 + 2 * length ?es \<notin> snd ` set (refs (?n + 5) ?es) \<union> snd ` set (refs (?n + 4) ?es)"
    and "?n \<notin> snd ` set (refs (?n + 5) ?es) \<union> snd ` set (refs (?n + 4) ?es)"
    and "?n + 1 \<notin> snd ` set (refs (?n + 5) ?es) \<union> snd ` set (refs (?n + 4) ?es)"
    and "?n + 2 \<notin> snd ` set (refs (?n + 5) ?es) \<union> snd ` set (refs (?n + 4) ?es)"
    and "?n + 3 \<notin> snd ` set (refs (?n + 5) ?es) \<union> snd ` set (refs (?n + 4) ?es)"
    using out [of "?n + 4 + 2 * length ?es"] out [of ?n] out [of "?n + 1"] out [of "?n + 2"]
      out [of "?n + 3"] by simp_all
  then show ?thesis
    unfolding output_objects_after
    by (simp add: distinct_refs refs_disjoint)
qed

lemma read_items_charges:
  "a = length pre \<Longrightarrow>
   read_items (pre @ new_lists es @ post) (refs a es) = Some (map (\<lambda>(k, ps). (k, map GetCharge ps)) es)"
proof (induction es arbitrary: pre a)
  case Nil
  show ?case by simp
next
  case (Cons e es)
  let ?pre = "pre @ [HList (map GetCharge (snd e)), HList (map GetTime (snd e))]"
  have "read_items (?pre @ new_lists es @ post) (refs (a + 2) es) =
          Some (map (\<lambda>(k, ps). (k, map GetCharge ps)) es)"
    by (rule Cons.IH) (simp add: Cons.prems)
  then show ?case
    by (simp add: Cons.prems read_list_def heap_get_def nth_append split_beta)
qed

lemma read_items_times:
  "a = length pre + 1 \<Longrightarrow>
   read_items (pre @ new_lists es @ post) (refs a es) = Some (map (\<lambda>(k, ps). (k, map GetTime ps)) es)"
proof (induction es arbitrary: pre a)
  case Nil
  show ?case by simp
next
  case (Cons e es)
  let ?pre = "pre @ [HList (map GetCharge (snd e)), HList (map GetTime (snd e))]"
  have "read_items (?pre @ new_lists es @ post) (refs (a + 2) es) =
          Some (map (\<lambda>(k, ps). (k, map GetTime ps)) es)"
    by (rule Cons.IH) (simp add: Cons.prems)
  then show ?case
    by (simp add: Cons.prems read_list_def heap_get_def nth_append split_beta)
qed

lemma read_tuple_after:
  "read_tuple (heap_after h m) (length h + 4 + 2 * length (RBT.entries m)) =
     Some (flat GetCharge m, flat GetTime m, per_key GetTime m, per_key GetCharge m)"
proof -
  let ?pre = "h @ [HList (flat GetCharge m), HList (flat GetTime m),
          HDict (refs (length h + 5) (RBT.entries m)), HDict (refs (length h + 4) (RBT.entries m))]"
  let ?post = "[HTuple [length h, length h + 1, length h + 2, length h + 3]]"
  have h: "heap_after h m = ?pre @ new_lists (RBT.entries m) @ ?post"
    by (simp add: heap_after_def)
  have "read_items (heap_after h m) (refs (length h + 4) (RBT.entries m)) = Some (per_key GetCharge m)"
    unfolding h per_key_def by (rule read_items_charges) simp
  moreover have "read_items (heap_after h m) (refs (length h + 5) (RBT.entries m)) = Some (per_key GetTime m)"
    unfolding h per_key_def by (rule read_items_times) simp
  moreover have "heap_get (heap_after h m) (length h + 4 + 2 * length (RBT.entries m)) = Some (HTuple [length h, length h + 1, length h + 2, length h + 3])"
    by (simp add: heap_after_def heap_get_def nth_append length_new_lists)
  moreover have "read_list (heap_after h m) (length h) = Some (flat GetCharge m)"
     "read_list (heap_after h m) (length h + 1) = Some (flat GetTime m)"
     "heap_get (heap_after h m) (length h + 2) = Some (HDict (refs (length h + 5) (RBT.entries m)))"
     "heap_get (heap_after h m) (length h + 3) = Some (HDict (refs (length h + 4) (RBT.entries m)))"
    by (simp_all add: heap_after_def heap_get_def read_list_def nth_append)
  ultimately show ?thesis
    by (simp add: read_tuple_def read_dict_def)
qed

text \<open>The heap-level call returns what the value-level function computes.\<close>

lemma restructure_pulsemap_heap_refines:
  assumes "heap_get h pulse_map_obj = Some (HValue obj)"
  shows "case restructure_pulsemap obj of
           Inl e \<Rightarrow> restructure_pulsemap_heap pulse_map_obj h = (Inl (Raised e), h)
         | Inr out \<Rightarrow>
             (\<exists>result h'. restructure_pulsemap_heap pulse_map_obj h = (Inr result, h') \<and>
                read_tuple h' result = Some out)"
proof (cases "py_extract obj")
  case (Inl e)
  then have "heap_extract pulse_map_obj h = Inl (Raised e)"
    using assms by (simp add: heap_extract_def)
  from restructure_pulsemap_heap_fails [OF this] Inl show ?thesis
    by (simp add: restructure_pulsemap_def)
next
  case (Inr m)
  then have "heap_extract pulse_map_obj h = Inr m"
    using assms by (simp add: heap_extract_def)
  moreover from Inr have "obj = PyWrapped m"
    by (cases obj) simp_all
  ultimately show ?thesis
    by (simp add: restructure_pulsemap_heap_succeeds read_tuple_after restructure_pulsemap_wrapped)
qed

section \<open>The properties of the specification\<close>

text \<open>
  C1 (concatenation identity). For every pulse map, the call succeeds, and joining the
  per-key charge sequences \<open>dom_charges_dict[k]\<close> over the keys \<open>k\<close> of the map, in the order
  of its iteration, gives exactly the flat sequence \<open>charges\<close>; likewise the per-key time
  sequences give \<open>times\<close>.
\<close>

theorem flat_is_concat_of_per_key:
  "\<exists>charges times' dom_times_dict dom_charges_dict.
     restructure_pulsemap (PyWrapped m) =
       Inr (charges, times', dom_times_dict, dom_charges_dict) \<and>
     concat_per_key dom_charges_dict (RBT.keys m) = Some charges \<and>
     concat_per_key dom_times_dict (RBT.keys m) = Some times'"
  by (simp add: restructure_pulsemap_wrapped concat_per_key_all)

text \<open>
  C2 (length identity). For every pulse map, the flat sequences \<open>charges\<close> and \<open>times\<close> have
  the same length, and that length is the sum of the lengths of the values of
  \<open>dom_charges_dict\<close>.
\<close>

theorem flat_lengths:
  "\<exists>charges times' dom_times_dict dom_charges_dict.
     restructure_pulsemap (PyWrapped m) =
       Inr (charges, times', dom_times_dict, dom_charges_dict) \<and>
     length charges = length times' \<and>
     length charges = sum_list (map length (dict_values dom_charges_dict))"
  using length_flat_eq [of GetCharge m GetTime] length_flat [of GetCharge m]
  by (simp add: restructure_pulsemap_wrapped)

text \<open>
  C3 (order and tuple layout). The call visits the pairs of the map in the order of its
  iteration and the pulses of a series in their stored order, nothing is sorted or moved, and
  the tuple holds the flat charges, the flat times, the per-key times and the per-key
  charges, in this order. For the map \<open>{A: [(charge 1.5, time 10)]}\<close> the result is
  \<open>([1.5], [10], {A: [10]}, {A: [1.5]})\<close>; for \<open>{A: [(2, 20), (3, 30)], B: [(4, 40)]}\<close>, iterated
  \<open>A\<close> then \<open>B\<close>, the flat charges are \<open>[2, 3, 4]\<close> and the flat times \<open>[20, 30, 40]\<close>.
\<close>

theorem restructure_pulsemap_order:
  "restructure_pulsemap (PyWrapped m) =
     Inr (concat (map (\<lambda>(k, ps). map GetCharge ps) (RBT.entries m)),
          concat (map (\<lambda>(k, ps). map GetTime ps) (RBT.entries m)),
          map (\<lambda>(k, ps). (k, map GetTime ps)) (RBT.entries m),
          map (\<lambda>(k, ps). (k, map GetCharge ps)) (RBT.entries m)) \<and>
   restructure_pulsemap
     (PyWrapped (RBT.insert A [\<lparr>GetTime = 10, GetCharge = 1.5\<rparr>] RBT.empty)) =
     Inr ([1.5], [10], [(A, [10])], [(A, [1.5])]) \<and>
   (A < B \<longrightarrow>
    restructure_pulsemap
      (PyWrapped (RBT.insert B [\<lparr>GetTime = 40, GetCharge = 4\<rparr>]
         (RBT.insert A [\<lparr>GetTime = 20, GetCharge = 2\<rparr>, \<lparr>GetTime = 30, GetCharge = 3\<rparr>]
            RBT.empty))) =
      Inr ([2, 3, 4], [20, 30, 40], [(A, [20, 30]), (B, [40])], [(A, [2, 3]), (B, [4])]))"
  by (simp add: restructure_pulsemap_wrapped flat_def per_key_def entries_single entries_two)

theorem restructure_pulsemap_order_witness:
  "(3::nat) < 5 \<and>
   restructure_pulsemap
     (PyWrapped (RBT.insert (5::nat) [\<lparr>GetTime = 40, GetCharge = 4\<rparr>]
        (RBT.insert 3 [\<lparr>GetTime = 20, GetCharge = 2\<rparr>, \<lparr>GetTime = 30, GetCharge = 3\<rparr>]
           RBT.empty))) =
     Inr ([2, 3, 4], [20, 30, 40], [(3, [20, 30]), (5, [40])], [(3, [2, 3]), (5, [4])])"
proof -
  have lt: "(3::nat) < 5" by simp
  with restructure_pulsemap_order [of RBT.empty "3::nat" 5] show ?thesis
    by blast
qed

text \<open>
  C4 (pulse for pulse). For every key \<open>k\<close> of the map, with its series \<open>pulses\<close>, the call
  succeeds, \<open>dom_charges_dict[k]\<close> and \<open>dom_times_dict[k]\<close> exist and have the length of
  \<open>pulses\<close>, and at every index \<open>i\<close> they hold the charge and the time of the \<open>i\<close>-th pulse.
\<close>

theorem per_key_pulse_for_pulse:
  "RBT.lookup m k = Some pulses \<Longrightarrow>
   \<exists>charges times' dom_times_dict dom_charges_dict dom_charges dom_times.
     restructure_pulsemap (PyWrapped m) =
       Inr (charges, times', dom_times_dict, dom_charges_dict) \<and>
     dict_getitem dom_charges_dict k = Some dom_charges \<and>
     dict_getitem dom_times_dict k = Some dom_times \<and>
     length dom_charges = length dom_times \<and> length dom_charges = length pulses \<and>
     (\<forall>i < length pulses.
        dom_charges ! i = GetCharge (pulses ! i) \<and> dom_times ! i = GetTime (pulses ! i))"
  by (simp add: restructure_pulsemap_wrapped getitem_per_key)

theorem per_key_pulse_for_pulse_witness:
  "RBT.lookup (RBT.insert (3::nat) [\<lparr>GetTime = 20, GetCharge = 2\<rparr>, \<lparr>GetTime = 30, GetCharge = 3\<rparr>]
      RBT.empty) 3 = Some [\<lparr>GetTime = 20, GetCharge = 2\<rparr>, \<lparr>GetTime = 30, GetCharge = 3\<rparr>] \<and>
   (\<exists>charges times' dom_times_dict dom_charges_dict dom_charges dom_times.
     restructure_pulsemap (PyWrapped (RBT.insert (3::nat)
         [\<lparr>GetTime = 20, GetCharge = 2\<rparr>, \<lparr>GetTime = 30, GetCharge = 3\<rparr>] RBT.empty)) =
       Inr (charges, times', dom_times_dict, dom_charges_dict) \<and>
     dict_getitem dom_charges_dict 3 = Some dom_charges \<and>
     dict_getitem dom_times_dict 3 = Some dom_times \<and>
     length dom_charges = 2 \<and> length dom_times = 2 \<and>
     dom_charges ! 0 = 2 \<and> dom_times ! 0 = 20 \<and> dom_charges ! 1 = 3 \<and> dom_times ! 1 = 30)"
proof -
  let ?pulses = "[\<lparr>GetTime = 20, GetCharge = 2\<rparr>, \<lparr>GetTime = 30, GetCharge = 3\<rparr>]"
  let ?m = "RBT.insert (3::nat) ?pulses RBT.empty"
  have h: "RBT.lookup ?m 3 = Some ?pulses"
    by simp
  from per_key_pulse_for_pulse [OF h]
  obtain charges times' dom_times_dict dom_charges_dict dom_charges dom_times where
    r: "restructure_pulsemap (PyWrapped ?m) = Inr (charges, times', dom_times_dict, dom_charges_dict)"
      "dict_getitem dom_charges_dict 3 = Some dom_charges"
      "dict_getitem dom_times_dict 3 = Some dom_times"
      "length dom_charges = length dom_times" "length dom_charges = length ?pulses"
    and each: "\<forall>i < length ?pulses.
        dom_charges ! i = GetCharge (?pulses ! i) \<and> dom_times ! i = GetTime (?pulses ! i)"
    by blast
  from each have "dom_charges ! 0 = 2" "dom_times ! 0 = 20" "dom_charges ! 1 = 3" "dom_times ! 1 = 30"
    by simp_all
  with r h show ?thesis
    by simp
qed

text \<open>
  C5 (empty input). On an empty pulse map the call returns two empty sequences and two empty
  dictionaries.
\<close>

theorem restructure_pulsemap_empty:
  "restructure_pulsemap (PyWrapped RBT.empty) = Inr ([], [], [], [])"
  by (simp add: restructure_pulsemap_def entries_empty)

text \<open>
  C6 (key with no pulse). A key \<open>k\<close> of the map whose series is empty is a key of both
  dictionaries, with the empty sequence, and adds nothing to the flat sequences: they are
  the flat sequences of the map without \<open>k\<close>. The map \<open>{A: []}\<close> gives \<open>([], [], {A: []}, {A: []})\<close>.
\<close>

theorem empty_series_key:
  "(RBT.lookup m k = Some [] \<longrightarrow>
     (\<exists>charges times' dom_times_dict dom_charges_dict dom_times_dict' dom_charges_dict'.
        restructure_pulsemap (PyWrapped m) =
          Inr (charges, times', dom_times_dict, dom_charges_dict) \<and>
        dict_getitem dom_times_dict k = Some [] \<and>
        dict_getitem dom_charges_dict k = Some [] \<and>
        restructure_pulsemap (PyWrapped (RBT.delete k m)) =
          Inr (charges, times', dom_times_dict', dom_charges_dict'))) \<and>
   restructure_pulsemap (PyWrapped (RBT.insert A [] RBT.empty)) =
     Inr ([], [], [(A, [])], [(A, [])])"
  by (simp add: restructure_pulsemap_wrapped getitem_per_key flat_delete_empty)
     (simp add: flat_def per_key_def entries_single)

theorem empty_series_key_witness:
  "RBT.lookup (RBT.insert (5::nat) [\<lparr>GetTime = 40, GetCharge = 4\<rparr>] (RBT.insert 3 [] RBT.empty)) 3
     = Some [] \<and>
   (\<exists>dom_times_dict dom_charges_dict dom_times_dict' dom_charges_dict'.
      restructure_pulsemap (PyWrapped
        (RBT.insert (5::nat) [\<lparr>GetTime = 40, GetCharge = 4\<rparr>] (RBT.insert 3 [] RBT.empty))) =
        Inr ([4], [40], dom_times_dict, dom_charges_dict) \<and>
      dict_getitem dom_times_dict 3 = Some [] \<and>
      dict_getitem dom_charges_dict 3 = Some [] \<and>
      restructure_pulsemap (PyWrapped (RBT.delete 3
        (RBT.insert (5::nat) [\<lparr>GetTime = 40, GetCharge = 4\<rparr>] (RBT.insert 3 [] RBT.empty)))) =
        Inr ([4], [40], dom_times_dict', dom_charges_dict'))"
proof -
  let ?m = "RBT.insert (5::nat) [\<lparr>GetTime = 40, GetCharge = 4\<rparr>] (RBT.insert 3 [] RBT.empty)"
  have h: "RBT.lookup ?m 3 = Some []"
    by simp
  have flat: "restructure_pulsemap (PyWrapped ?m) =
      Inr ([4], [40], [(3, []), (5, [40])], [(3, []), (5, [4])])"
    by (simp add: restructure_pulsemap_wrapped flat_def per_key_def entries_two)
  from empty_series_key [of ?m 3 3] h
  obtain charges times' dom_times_dict dom_charges_dict dom_times_dict' dom_charges_dict' where
    r: "restructure_pulsemap (PyWrapped ?m) = Inr (charges, times', dom_times_dict, dom_charges_dict)"
       "dict_getitem dom_times_dict 3 = Some []" "dict_getitem dom_charges_dict 3 = Some []"
       "restructure_pulsemap (PyWrapped (RBT.delete 3 ?m)) =
          Inr (charges, times', dom_times_dict', dom_charges_dict')"
    by blast
  from r(1) flat have "charges = [4]" "times' = [40]"
    by simp_all
  with r h show ?thesis
    by blast
qed

text \<open>
  C7 (failures), as the code has it. The claim is that an element without a numeric charge
  or time field makes the call fail with \<open>MissingFieldError\<close>. It does not: a map of
  sequences with such an element is no wrapped pulse map, and the call fails with
  \<open>InputTypeError\<close> at its first statement.
\<close>

theorem missing_field_counterexample:
  "\<not> has_numeric_field ''charge''
       (PyInstance [(''time'', PyFloat 10)] :: nat I3RecoPulseSeriesMap pyobject) \<and>
   restructure_pulsemap
     (PyDict [(PyStr ''A'', PyList [PyInstance [(''time'', PyFloat 10)]])]
        :: nat I3RecoPulseSeriesMap pyobject) = Inl InputTypeError \<and>
   restructure_pulsemap
     (PyDict [(PyStr ''A'', PyList [PyInstance [(''time'', PyFloat 10)]])]
        :: nat I3RecoPulseSeriesMap pyobject) \<noteq> Inl MissingFieldError"
  by (simp add: restructure_pulsemap_def)

text \<open>
  C7, amended. The call never fails with \<open>MissingFieldError\<close>, nor with the range error of
  \<^verbatim>\<open>at\<close>. Either the argument is not a wrapped pulse map, and the call fails with
  \<open>InputTypeError\<close>; or it is one, whose elements all have a charge and a time, and the call
  returns a result.
\<close>

theorem only_input_type_error:
  "(restructure_pulsemap pulse_map_obj = Inl InputTypeError \<and>
      (\<forall>m. pulse_map_obj \<noteq> PyWrapped m)) \<or>
   (\<exists>m out. pulse_map_obj = PyWrapped m \<and> restructure_pulsemap pulse_map_obj = Inr out)"
proof (cases "\<exists>m. pulse_map_obj = PyWrapped m")
  case True
  then show ?thesis
    by (auto simp: restructure_pulsemap_wrapped)
next
  case False
  then show ?thesis
    by (simp add: restructure_pulsemap_not_wrapped)
qed

text \<open>
  C8 (argument of another type). When the argument is not a wrapped pulse map, a plain
  number for one, the call raises \<open>InputTypeError\<close>; it does so at its first statement, before
  anything is built: there is no result and the heap is the one before the call.
\<close>

theorem non_map_argument_raises:
  "(\<forall>m. pulse_map_obj \<noteq> PyWrapped m) \<longrightarrow>
     restructure_pulsemap pulse_map_obj = Inl InputTypeError \<and>
     (\<forall>out. restructure_pulsemap pulse_map_obj \<noteq> Inr out) \<and>
     (heap_get h a = Some (HValue pulse_map_obj) \<longrightarrow>
        restructure_pulsemap_heap a h = (Inl (Raised InputTypeError), h))"
proof (intro impI conjI allI)
  assume n: "\<forall>m. pulse_map_obj \<noteq> PyWrapped m"
  then show r: "restructure_pulsemap pulse_map_obj = Inl InputTypeError"
    by (rule restructure_pulsemap_not_wrapped)
  then show "restructure_pulsemap pulse_map_obj \<noteq> Inr out" for out
    by simp
  assume "heap_get h a = Some (HValue pulse_map_obj)"
  from restructure_pulsemap_heap_refines [OF this] r
  show "restructure_pulsemap_heap a h = (Inl (Raised InputTypeError), h)"
    by simp
qed

theorem non_map_argument_raises_witness:
  "restructure_pulsemap (PyFloat 3 :: nat I3RecoPulseSeriesMap pyobject) = Inl InputTypeError \<and>
   restructure_pulsemap_heap 0 [HValue (PyFloat 3) :: (nat, nat I3RecoPulseSeriesMap) py_heap_object] =
     (Inl (Raised InputTypeError), [HValue (PyFloat 3)])"
  using non_map_argument_raises [of "PyFloat 3 :: nat I3RecoPulseSeriesMap pyobject" "[HValue (PyFloat 3)]" 0]
  by (simp add: heap_get_def)

text \<open>
  C9 (the input is not written). Whatever the call returns, every object that was on the
  heap before the call is the same after it, the argument among them: the call writes new
  objects only. When the call fails the heap is the heap before the call. When it returns
  a tuple, the tuple, its four components and every list the two dictionaries refer to are
  objects that were not on the heap before, and no two of them are the same object.
\<close>

theorem input_map_untouched:
  "restructure_pulsemap_heap pulse_map_obj h = (r, h') \<Longrightarrow>
     take (length h) h' = h \<and>
     heap_get h' pulse_map_obj = heap_get h pulse_map_obj \<and>
     (case r of
        Inl e \<Rightarrow> h' = h
      | Inr result \<Rightarrow>
          (\<forall>a \<in> set (output_objects h' result). length h \<le> a \<and> a < length h') \<and>
          distinct (output_objects h' result))"
proof (cases "heap_extract pulse_map_obj h")
  case (Inl e)
  assume "restructure_pulsemap_heap pulse_map_obj h = (r, h')"
  with restructure_pulsemap_heap_fails [OF Inl] show ?thesis by simp
next
  case (Inr m)
  assume "restructure_pulsemap_heap pulse_map_obj h = (r, h')"
  with restructure_pulsemap_heap_succeeds [OF Inr]
  have r: "r = Inr (length h + 4 + 2 * length (RBT.entries m))" and h': "h' = heap_after h m"
    by simp_all
  have old: "take (length h) h' = h"
    by (simp add: h' heap_after_def)
  from Inr have "pulse_map_obj < length h"
    by (auto simp: heap_extract_def heap_get_def split: if_splits)
  then have "heap_get h' pulse_map_obj = heap_get h pulse_map_obj"
    by (simp add: h' heap_after_def heap_get_def nth_append)
  with old show ?thesis
    using output_objects_fresh [of _ h m] output_objects_distinct [of h m] by (simp add: r h')
qed

theorem input_map_untouched_witness:
  "restructure_pulsemap_heap 0
     [HValue (PyWrapped (RBT.insert (3::nat) [\<lparr>GetTime = 10, GetCharge = 1.5\<rparr>] RBT.empty))] =
     (Inr 7,
      [HValue (PyWrapped (RBT.insert (3::nat) [\<lparr>GetTime = 10, GetCharge = 1.5\<rparr>] RBT.empty)),
       HList [1.5], HList [10], HDict [(3::nat, 6)], HDict [(3::nat, 5)],
       HList [1.5], HList [10], HTuple [1, 2, 3, 4]]) \<and>
   take 1
     [HValue (PyWrapped (RBT.insert (3::nat) [\<lparr>GetTime = 10, GetCharge = 1.5\<rparr>] RBT.empty)),
      HList [1.5], HList [10], HDict [(3::nat, 6)], HDict [(3::nat, 5)],
      HList [1.5], HList [10], HTuple [1, 2, 3, 4]] =
     [HValue (PyWrapped (RBT.insert (3::nat) [\<lparr>GetTime = 10, GetCharge = 1.5\<rparr>] RBT.empty))] \<and>
   output_objects
     [HValue (PyWrapped (RBT.insert (3::nat) [\<lparr>GetTime = 10, GetCharge = 1.5\<rparr>] RBT.empty)),
      HList [1.5], HList [10], HDict [(3::nat, 6)], HDict [(3::nat, 5)],
      HList [1.5], HList [10], HTuple [1, 2, 3, 4]] 7 = [7, 1, 2, 3, 4, 6, 5] \<and>
   distinct (output_objects
     [HValue (PyWrapped (RBT.insert (3::nat) [\<lparr>GetTime = 10, GetCharge = 1.5\<rparr>] RBT.empty)),
      HList [1.5], HList [10], HDict [(3::nat, 6)], HDict [(3::nat, 5)],
      HList [1.5], HList [10], HTuple [1, 2, 3, 4]] 7)"
proof -
  let ?m = "RBT.insert (3::nat) [\<lparr>GetTime = 10, GetCharge = 1.5\<rparr>] RBT.empty"
  let ?h = "[HValue (PyWrapped ?m)] :: (nat, nat I3RecoPulseSeriesMap) py_heap"
  let ?h' = "[HValue (PyWrapped ?m), HList [1.5], HList [10], HDict [(3::nat, 6)], HDict [(3::nat, 5)],
      HList [1.5], HList [10], HTuple [1, 2, 3, 4]] :: (nat, nat I3RecoPulseSeriesMap) py_heap"
  have ex: "heap_extract 0 ?h = Inr ?m"
    by (simp add: heap_extract_def heap_get_def)
  have "restructure_pulsemap_heap 0 ?h =
      (Inr (length ?h + 4 + 2 * length (RBT.entries ?m)), heap_after ?h ?m)"
    using ex by (rule restructure_pulsemap_heap_succeeds)
  also have "\<dots> = (Inr 7, ?h')"
    by (simp add: heap_after_def flat_def entries_single)
  finally have run: "restructure_pulsemap_heap 0 ?h = (Inr 7, ?h')" .
  have objs: "output_objects ?h' 7 = [7, 1, 2, 3, 4, 6, 5]"
    by (simp add: output_objects_def heap_get_def dict_refs_def)
  from input_map_untouched [OF run] run objs show ?thesis
    by simp
qed

text \<open>
  C10 (key sets). The keys of \<open>dom_times_dict\<close> and the keys of \<open>dom_charges_dict\<close> are the
  keys of the map: each of them once, put in in the order of the iteration.
\<close>

theorem per_key_key_sets:
  "\<exists>charges times' dom_times_dict dom_charges_dict.
     restructure_pulsemap (PyWrapped m) =
       Inr (charges, times', dom_times_dict, dom_charges_dict) \<and>
     dict_keys dom_times_dict = RBT.keys m \<and> dict_keys dom_charges_dict = RBT.keys m \<and>
     distinct (dict_keys dom_times_dict) \<and> distinct (dict_keys dom_charges_dict) \<and>
     set (dict_keys dom_times_dict) = dom (RBT.lookup m) \<and>
     set (dict_keys dom_charges_dict) = dom (RBT.lookup m)"
  by (simp add: restructure_pulsemap_wrapped keys_per_key RBT.lookup_keys)

end
